theory Spec2Isabelle
  imports Complex_Main
begin

section \<open>Moving average tracker (src/core/models.py)\<close>

text \<open>
  The dataclass \<open>MovingAverage\<close> has an integer window size and a list of samples.
  Python floats are modelled by \<open>real\<close>: sums and quotients are exact, rounding is
  outside the model. The field \<open>values\<close> is named \<open>ma_values\<close> here.
\<close>

record MovingAverage =
  window_size :: int
  ma_values :: "real list"

definition post_init :: "MovingAverage \<Rightarrow> MovingAverage" where
  "post_init self = self\<lparr>ma_values := []\<rparr>"

text \<open>The generated constructor stores both arguments and then runs \<open>__post_init__\<close>.\<close>

definition MovingAverage_new :: "int \<Rightarrow> real list \<Rightarrow> MovingAverage" where
  "MovingAverage_new w vs = post_init \<lparr>window_size = w, ma_values = vs\<rparr>"

text \<open>
  \<open>add_value\<close> appends and then pops index 0 once when the list is longer than the
  window. The list is never empty at the pop, so \<open>pop(0)\<close> is \<open>tl\<close>.
\<close>

definition add_value :: "real \<Rightarrow> MovingAverage \<Rightarrow> MovingAverage" where
  "add_value v self =
     (let appended = ma_values self @ [v]
      in if int (length appended) > window_size self
         then self\<lparr>ma_values := tl appended\<rparr>
         else self\<lparr>ma_values := appended\<rparr>)"

text \<open>
  The two readers are methods on \<open>self\<close>; each returns its result together with the
  object as the call leaves it.
\<close>

definition get_average :: "MovingAverage \<Rightarrow> real option \<times> MovingAverage" where
  "get_average self =
     (if ma_values self = [] then (None, self)
      else (Some (sum_list (ma_values self) / real (length (ma_values self))), self))"

definition is_ready :: "MovingAverage \<Rightarrow> bool \<times> MovingAverage" where
  "is_ready self = (int (length (ma_values self)) \<ge> window_size self, self)"

text \<open>Adding \<open>v1..vm\<close> in order is a fold of \<open>add_value\<close>.\<close>

definition add_all :: "real list \<Rightarrow> MovingAverage \<Rightarrow> MovingAverage" where
  "add_all vs self = fold add_value vs self"

text \<open>
  The spec's mean: "the arithmetic mean of all currently held values, or no value if
  empty".
\<close>

definition spec_mean :: "real list \<Rightarrow> real option" where
  "spec_mean vs = (if vs = [] then None else Some (sum_list vs / real (length vs)))"

definition window_inv :: "MovingAverage \<Rightarrow> bool" where
  "window_inv self = (int (length (ma_values self)) \<le> window_size self)"


section \<open>Exceptions and observable events\<close>

text \<open>
  The exceptions the core raises or lets through. \<open>ClientResponseError\<close> is a subclass
  of \<open>aiohttp.ClientError\<close>; the two \<open>ClientError\<close> values built in \<open>HttpClient.get\<close>
  are kept apart by their message.
\<close>

datatype exn =
    ClientResponseError int
  | ServerErrorAfter int int
  | MaxRetriesExceeded
  | ClientConnectionError
  | TimeoutError
  | ValueError
  | TypeError
  | StorageError

fun is_ClientResponseError :: "exn \<Rightarrow> bool" where
  "is_ClientResponseError (ClientResponseError _) = True"
| "is_ClientResponseError _ = False"

fun is_ClientError :: "exn \<Rightarrow> bool" where
  "is_ClientError (ClientResponseError _) = True"
| "is_ClientError (ServerErrorAfter _ _) = True"
| "is_ClientError MaxRetriesExceeded = True"
| "is_ClientError ClientConnectionError = True"
| "is_ClientError _ = False"

record listing =
  rank :: int
  name :: string
  symbol :: string
  price :: real
  change_24h :: real
  market_cap :: real

text \<open>What a run does to the outside world, in order.\<close>

datatype event =
    Sleep real
  | HttpGet nat
  | GetPrice
  | StorePrice real
  | PrintPrice real "real option"
  | PrintStop
  | FetchPage int
  | LogError int exn
  | StoreListings "listing list"
  | CloseClient

fun is_HttpGet :: "event \<Rightarrow> bool" where
  "is_HttpGet (HttpGet _) = True"
| "is_HttpGet _ = False"

fun sleeps :: "event list \<Rightarrow> real list" where
  "sleeps [] = []"
| "sleeps (Sleep d # evs) = d # sleeps evs"
| "sleeps (_ # evs) = sleeps evs"


section \<open>HTTP client (src/http_client.py)\<close>

text \<open>
  The client keeps the retry budget, the rate and the instant of the last request.
  Instants and durations are seconds as \<open>real\<close>. The aiohttp session is the
  environment: it appears below as the function that answers each attempt.
\<close>

record HttpClient =
  timeout :: int
  max_retries :: int
  requests_per_second :: real
  last_request_time :: "real option"
  min_interval :: real

definition HttpClient_new :: "int \<Rightarrow> int \<Rightarrow> real \<Rightarrow> HttpClient" where
  "HttpClient_new t mr rps =
     \<lparr>timeout = t, max_retries = mr, requests_per_second = rps,
      last_request_time = None,
      min_interval = (if rps > 0 then 1 / rps else 0)\<rparr>"

text \<open>
  \<open>_rate_limit\<close> reads the clock twice: \<open>t1\<close> is \<open>datetime.now()\<close> where the elapsed
  time is computed (read only when a last request is recorded and the interval is
  positive), \<open>t2\<close> is \<open>datetime.now()\<close> where the new instant is recorded.
\<close>

definition rate_limit :: "HttpClient \<Rightarrow> real \<Rightarrow> real \<Rightarrow> HttpClient \<times> event list" where
  "rate_limit self t1 t2 =
     (let evs =
        (case last_request_time self of
           None \<Rightarrow> []
         | Some t0 \<Rightarrow>
             if min_interval self > 0 then
               (let elapsed = t1 - t0
                in if elapsed < min_interval self
                   then [Sleep (min_interval self - elapsed)]
                   else [])
             else [])
      in (self\<lparr>last_request_time := Some t2\<rparr>, evs))"

text \<open>
  One attempt is answered either by a response with a status and the outcome of
  \<open>response.json()\<close>, or by an exception raised by the transport.
\<close>

datatype 'p response = Responded int "exn + 'p" | Raised exn

datatype 'p outcome = Continue | Return 'p | Raise exn

text \<open>The body of the \<open>try\<close> block of one loop iteration.\<close>

definition try_block :: "int \<Rightarrow> 'p response \<Rightarrow> nat \<Rightarrow> 'p outcome \<times> event list" where
  "try_block mr resp attempt =
     (case resp of
        Raised e \<Rightarrow> (Raise e, [HttpGet attempt])
      | Responded status body \<Rightarrow>
          if status \<ge> 500 then
            (if int attempt < mr - 1
             then (Continue, [HttpGet attempt, Sleep (2 ^ attempt)])
             else (Raise (ServerErrorAfter mr status), [HttpGet attempt]))
          else if status \<ge> 400 then
            (Raise (ClientResponseError status), [HttpGet attempt])
          else
            (case body of
               Inl e \<Rightarrow> (Raise e, [HttpGet attempt])
             | Inr data \<Rightarrow> (Return data, [HttpGet attempt])))"

text \<open>
  The two \<open>except\<close> clauses, in order: a \<open>ClientResponseError\<close> is raised again at
  once; any other \<open>ClientError\<close> or a timeout is retried after \<open>2 ** attempt\<close> seconds
  while attempts remain and raised again otherwise; anything else propagates.
\<close>

definition attempt_body :: "int \<Rightarrow> 'p response \<Rightarrow> nat \<Rightarrow> 'p outcome \<times> event list" where
  "attempt_body mr resp attempt =
     (case try_block mr resp attempt of
        (Raise e, evs) \<Rightarrow>
          if is_ClientResponseError e then (Raise e, evs)
          else if is_ClientError e \<or> e = TimeoutError then
            (if int attempt < mr - 1
             then (Continue, evs @ [Sleep (2 ^ attempt)])
             else (Raise e, evs))
          else (Raise e, evs)
      | other \<Rightarrow> other)"

text \<open>
  \<open>for attempt in range(self.max_retries)\<close>, over the list of attempt numbers; leaving
  the loop at its end reaches the final \<open>raise\<close>.
\<close>

fun attempt_loop :: "int \<Rightarrow> (nat \<Rightarrow> 'p response) \<Rightarrow> nat list \<Rightarrow> (exn + 'p) \<times> event list" where
  "attempt_loop mr respond [] = (Inl MaxRetriesExceeded, [])"
| "attempt_loop mr respond (attempt # rest) =
     (case attempt_body mr (respond attempt) attempt of
        (Continue, evs) \<Rightarrow>
          (let (r, evs') = attempt_loop mr respond rest in (r, evs @ evs'))
      | (Return data, evs) \<Rightarrow> (Inr data, evs)
      | (Raise e, evs) \<Rightarrow> (Inl e, evs))"

definition get ::
  "HttpClient \<Rightarrow> real \<Rightarrow> real \<Rightarrow> (nat \<Rightarrow> 'p response) \<Rightarrow> (exn + 'p) \<times> HttpClient \<times> event list"
where
  "get self t1 t2 respond =
     (let (self', waited) = rate_limit self t1 t2;
          (r, evs) = attempt_loop (max_retries self') respond [0..<nat (max_retries self')]
      in (r, self', waited @ evs))"



text \<open>
  The spec's retry schedule: \<open>k\<close> attempts with delays \<open>1, 2, 4, \<dots>, 2^(k-2)\<close> between
  them.
\<close>

definition retry_step :: "nat \<Rightarrow> nat \<Rightarrow> event list" where
  "retry_step k a = HttpGet a # (if Suc a < k then [Sleep (2 ^ a)] else [])"

definition retry_trace :: "nat \<Rightarrow> event list" where
  "retry_trace k = concat (map (retry_step k) [0..<k])"

text \<open>
  The answers that the loop retries: a status of 500 or more, or a \<open>ClientError\<close>
  other than \<open>ClientResponseError\<close>, or a timeout, raised by the request or by
  reading the body.
\<close>

fun retried_exn :: "exn \<Rightarrow> bool" where
  "retried_exn e = (\<not> is_ClientResponseError e \<and> (is_ClientError e \<or> e = TimeoutError))"

fun is_transient :: "'p response \<Rightarrow> bool" where
  "is_transient (Responded status body) =
     (status \<ge> 500 \<or>
      (status < 400 \<and> (case body of Inl e \<Rightarrow> retried_exn e | Inr data \<Rightarrow> False)))"
| "is_transient (Raised e) = retried_exn e"

fun is_server_error :: "'p response \<Rightarrow> bool" where
  "is_server_error (Responded status _) = (status \<ge> 500)"
| "is_server_error (Raised _) = False"

fun status_of :: "'p response \<Rightarrow> int" where
  "status_of (Responded status _) = status"
| "status_of (Raised _) = 0"


section \<open>Service (src/service.py)\<close>

text \<open>The configuration values the core reads, with the defaults of the dataclass.\<close>

record CrawlerConfig =
  http_timeout :: int
  http_max_retries :: int
  poll_interval :: real
  max_consecutive_failures :: int
  html_scraping_delay :: real
  json_api_delay :: real
  moving_average_window :: int
  cfg_requests_per_second :: real

definition default_config :: CrawlerConfig where
  "default_config =
     \<lparr>http_timeout = 30, http_max_retries = 5, poll_interval = 1,
      max_consecutive_failures = 5, html_scraping_delay = 1 / 2, json_api_delay = 1 / 5,
      moving_average_window = 10, cfg_requests_per_second = 2\<rparr>"

text \<open>
  The service object. Storage and the two providers are the environment; the failure
  counter starts at 0 and is only ever reset or incremented, so it is a natural number.
\<close>

record CryptoCrawlerService =
  config :: CrawlerConfig
  http_client :: HttpClient
  moving_average :: MovingAverage
  running :: bool
  consecutive_failures :: nat

definition CryptoCrawlerService_new :: "CrawlerConfig \<Rightarrow> CryptoCrawlerService" where
  "CryptoCrawlerService_new cfg =
     \<lparr>config = cfg,
      http_client = HttpClient_new (http_timeout cfg) (http_max_retries cfg)
                      (cfg_requests_per_second cfg),
      moving_average = MovingAverage_new (moving_average_window cfg) [],
      running = False,
      consecutive_failures = 0\<rparr>"

subsection \<open>Price poller\<close>

text \<open>
  What the environment does in one cycle: \<open>fetched\<close> is the outcome of
  \<open>coingecko.get_price\<close> (the price, or the exception it raises), \<open>stored\<close> is the
  exception raised by \<open>storage.store_price\<close>, if any, and \<open>sigint\<close> tells whether
  SIGINT is delivered while the cycle runs.
\<close>

record cycle =
  fetched :: "exn + real"
  stored :: "exn option"
  sigint :: bool

definition cycle_ok :: "cycle \<Rightarrow> bool" where
  "cycle_ok c = (\<not> isl (fetched c) \<and> stored c = None)"

text \<open>
  The \<open>try\<close> block of one cycle: the exception that ends it (if any), the service as it
  is left, and what was done. Formatting the average with \<open>:,.2f\<close> raises
  \<open>TypeError\<close> when \<open>get_average\<close> returned \<open>None\<close>.
\<close>

definition poll_try ::
  "CryptoCrawlerService \<Rightarrow> cycle \<Rightarrow> exn option \<times> CryptoCrawlerService \<times> event list" where
  "poll_try self c =
     (case fetched c of
        Inl e \<Rightarrow> (Some e, self, [GetPrice])
      | Inr p \<Rightarrow>
          (case stored c of
             Some e \<Rightarrow> (Some e, self, [GetPrice, StorePrice p])
           | None \<Rightarrow>
               (let ma1 = add_value p (moving_average self);
                    (ready, ma2) = is_ready ma1
                in if ready then
                     (let (sma, ma3) = get_average ma2
                      in case sma of
                           None \<Rightarrow>
                             (Some TypeError, self\<lparr>moving_average := ma3\<rparr>,
                              [GetPrice, StorePrice p])
                         | Some a \<Rightarrow>
                             (None, self\<lparr>moving_average := ma3, consecutive_failures := 0\<rparr>,
                              [GetPrice, StorePrice p, PrintPrice p (Some a),
                               Sleep (poll_interval (config self))]))
                   else
                     (None, self\<lparr>moving_average := ma2, consecutive_failures := 0\<rparr>,
                      [GetPrice, StorePrice p, PrintPrice p None,
                       Sleep (poll_interval (config self))]))))"

text \<open>One iteration of the \<open>while\<close> loop: the \<open>try\<close> block and its \<open>except\<close> clause.\<close>

definition poll_cycle ::
  "CryptoCrawlerService \<Rightarrow> cycle \<Rightarrow> CryptoCrawlerService \<times> event list" where
  "poll_cycle self c =
     (case poll_try self c of
        (None, self', evs) \<Rightarrow> (self', evs)
      | (Some e, self', evs) \<Rightarrow>
          (let failed = self'\<lparr>consecutive_failures := consecutive_failures self' + 1\<rparr>
           in if int (consecutive_failures failed) \<ge> max_consecutive_failures (config failed)
              then (failed\<lparr>running := False\<rparr>, evs @ [PrintStop])
              else (failed,
                    evs @ [Sleep (min (2 ^ (consecutive_failures failed - 1)) 30)])))"

text \<open>
  The handler installed by \<open>start_price_poller\<close> for SIGINT clears \<open>running\<close>. It can
  run at any point of a cycle; the loop reads the flag only at its next test, so a
  signal delivered during a cycle takes effect when the cycle is over.
\<close>

definition signal_handler :: "CryptoCrawlerService \<Rightarrow> CryptoCrawlerService" where
  "signal_handler self = self\<lparr>running := False\<rparr>"

definition poll_iteration ::
  "CryptoCrawlerService \<Rightarrow> cycle \<Rightarrow> CryptoCrawlerService \<times> event list" where
  "poll_iteration self c =
     (let (self', evs) = poll_cycle self c
      in (if sigint c then signal_handler self' else self', evs))"






subsection \<open>Paged crawls\<close>

text \<open>
  The page loop of both crawls. \<open>fetch\<close> is the provider call for one page: its
  listings, or the exception it raises.
\<close>

fun crawl_loop ::
  "real \<Rightarrow> (int \<Rightarrow> exn + listing list) \<Rightarrow> int list \<Rightarrow> listing list
     \<Rightarrow> listing list \<times> event list" where
  "crawl_loop delay fetch [] all_listings = (all_listings, [])"
| "crawl_loop delay fetch (page # pages) all_listings =
     (case fetch page of
        Inr listings \<Rightarrow>
          (let (r, evs) = crawl_loop delay fetch pages (all_listings @ listings)
           in (r, FetchPage page # Sleep delay # evs))
      | Inl e \<Rightarrow>
          (let (r, evs) = crawl_loop delay fetch pages all_listings
           in (r, FetchPage page # LogError page e # evs)))"

text \<open>
  After the loop the batch goes to \<open>storage.store_listings\<close>; an exception raised
  there propagates to the caller.
\<close>

definition crawl_run ::
  "real \<Rightarrow> (int \<Rightarrow> exn + listing list) \<Rightarrow> (listing list \<Rightarrow> exn option) \<Rightarrow> int
     \<Rightarrow> (exn + listing list) \<times> event list" where
  "crawl_run delay fetch store_listings pages =
     (let (all_listings, evs) = crawl_loop delay fetch [1..pages] []
      in case store_listings all_listings of
           Some e \<Rightarrow> (Inl e, evs @ [StoreListings all_listings])
         | None \<Rightarrow> (Inr all_listings, evs @ [StoreListings all_listings]))"

definition crawl_coinmarketcap_html ::
  "CryptoCrawlerService \<Rightarrow> (int \<Rightarrow> exn + listing list) \<Rightarrow> (listing list \<Rightarrow> exn option)
     \<Rightarrow> int \<Rightarrow> (exn + listing list) \<times> event list" where
  "crawl_coinmarketcap_html self get_listings_html store_listings pages =
     crawl_run (html_scraping_delay (config self)) get_listings_html store_listings pages"

definition crawl_coinmarketcap_json ::
  "CryptoCrawlerService \<Rightarrow> (int \<Rightarrow> int \<Rightarrow> exn + listing list)
     \<Rightarrow> (listing list \<Rightarrow> exn option) \<Rightarrow> int \<Rightarrow> int
     \<Rightarrow> (exn + listing list) \<times> event list" where
  "crawl_coinmarketcap_json self get_listings store_listings pages per_page =
     crawl_run (json_api_delay (config self)) (\<lambda>page. get_listings page per_page)
       store_listings pages"

text \<open>Readings of a crawl's events.\<close>

fun is_FetchPage :: "event \<Rightarrow> bool" where
  "is_FetchPage (FetchPage _) = True"
| "is_FetchPage _ = False"

fun is_StoreListings :: "event \<Rightarrow> bool" where
  "is_StoreListings (StoreListings _) = True"
| "is_StoreListings _ = False"

fun is_LogError :: "event \<Rightarrow> bool" where
  "is_LogError (LogError _ _) = True"
| "is_LogError _ = False"

definition page_records :: "(int \<Rightarrow> exn + listing list) \<Rightarrow> int \<Rightarrow> listing list" where
  "page_records fetch page = (case fetch page of Inr listings \<Rightarrow> listings | Inl e \<Rightarrow> [])"

text \<open>The records of exactly the successful pages among \<open>1..pages\<close>, in page order.\<close>

definition successful_batch :: "(int \<Rightarrow> exn + listing list) \<Rightarrow> int \<Rightarrow> listing list" where
  "successful_batch fetch pages = concat (map (page_records fetch) [1..pages])"

definition page_events :: "real \<Rightarrow> (int \<Rightarrow> exn + listing list) \<Rightarrow> int \<Rightarrow> event list" where
  "page_events delay fetch page =
     (case fetch page of
        Inr listings \<Rightarrow> [FetchPage page, Sleep delay]
      | Inl e \<Rightarrow> [FetchPage page, LogError page e])"

definition page_errors :: "(int \<Rightarrow> exn + listing list) \<Rightarrow> int \<Rightarrow> event list" where
  "page_errors fetch page =
     (case fetch page of Inr listings \<Rightarrow> [] | Inl e \<Rightarrow> [LogError page e])"

definition after_last_fetch :: "event list \<Rightarrow> event list" where
  "after_last_fetch evs = rev (takeWhile (\<lambda>e. \<not> is_FetchPage e) (rev evs))"

definition delay_after_last_page :: "event list \<Rightarrow> bool" where
  "delay_after_last_page evs = (sleeps (after_last_fetch evs) \<noteq> [])"

subsection \<open>Sample environments\<close>

definition coin :: "int \<Rightarrow> listing" where
  "coin r = \<lparr>rank = r, name = ''Coin'', symbol = ''CN'', price = 1, change_24h = 0,
             market_cap = 0\<rparr>"

definition page3_fails :: "int \<Rightarrow> exn + listing list" where
  "page3_fails page = (if page = 3 then Inl TimeoutError else Inr [coin page])"

definition page3_fails_json :: "int \<Rightarrow> int \<Rightarrow> exn + listing list" where
  "page3_fails_json page per_page = page3_fails page"

definition every_page_fails :: "int \<Rightarrow> exn + listing list" where
  "every_page_fails page = Inl ClientConnectionError"

definition every_page_fails_json :: "int \<Rightarrow> int \<Rightarrow> exn + listing list" where
  "every_page_fails_json page per_page = every_page_fails page"

definition store_ok :: "listing list \<Rightarrow> exn option" where
  "store_ok batch = None"

definition always_503 :: "nat \<Rightarrow> unit response" where
  "always_503 attempt = Responded 503 (Inr ())"

definition not_found :: "nat \<Rightarrow> unit response" where
  "not_found attempt = Responded 404 (Inr ())"



definition patient_service :: CryptoCrawlerService where
  "patient_service =
     (CryptoCrawlerService_new (default_config\<lparr>max_consecutive_failures := 10\<rparr>))
       \<lparr>consecutive_failures := 5\<rparr>"


definition bad_cycle :: cycle where
  "bad_cycle = \<lparr>fetched = Inl TimeoutError, stored = None, sigint = False\<rparr>"







section \<open>Properties of the moving average tracker\<close>

lemma add_all_snoc: "add_all (vs @ [v]) self = add_value v (add_all vs self)"
  by (simp add: add_all_def)

lemma add_all_window_size: "window_size (add_all vs self) = window_size self"
proof (induction vs rule: rev_induct)
  case Nil
  show ?case by (simp add: add_all_def)
next
  case (snoc v vs)
  then show ?case by (simp add: add_all_snoc add_value_def Let_def)
qed

lemma tl_drop_snoc:
  assumes "k \<le> length vs" "0 < length vs - k \<or> k = length vs"
  shows "tl (drop k vs @ [v]) = drop (Suc k) (vs @ [v])"
proof (cases "k = length vs")
  case True
  then show ?thesis by simp
next
  case False
  with assms have "k < length vs" by simp
  then have "drop k vs \<noteq> []" by simp
  then have "tl (drop k vs @ [v]) = tl (drop k vs) @ [v]" by simp
  also have "\<dots> = drop (Suc k) vs @ [v]" by (simp add: drop_Suc tl_drop)
  also have "\<dots> = drop (Suc k) (vs @ [v])" using \<open>k < length vs\<close> by simp
  finally show ?thesis .
qed

text \<open>The window always holds the last \<open>n\<close> values added since construction.\<close>

lemma add_all_values:
  assumes "0 \<le> n"
  shows "ma_values (add_all vs (MovingAverage_new n init)) = drop (length vs - nat n) vs"
proof (induction vs rule: rev_induct)
  case Nil
  show ?case by (simp add: add_all_def MovingAverage_new_def post_init_def)
next
  case (snoc v vs)
  let ?m = "add_all vs (MovingAverage_new n init)"
  have ws: "window_size ?m = n"
    by (simp add: add_all_window_size MovingAverage_new_def post_init_def)
  show ?case
  proof (cases "length vs < nat n")
    case True
    then have "ma_values ?m = vs" using snoc by simp
    moreover have "\<not> int (length (vs @ [v])) > n" using True by simp
    ultimately show ?thesis using True
      by (simp add: add_all_snoc add_value_def Let_def ws)
  next
    case False
    then have ge: "nat n \<le> length vs" by simp
    have len: "length (ma_values ?m) = nat n" using snoc ge by simp
    have over: "int (length (ma_values ?m @ [v])) > n" using len assms by simp
    have "ma_values (add_all (vs @ [v]) (MovingAverage_new n init))
            = tl (drop (length vs - nat n) vs @ [v])"
      using over snoc by (simp add: add_all_snoc add_value_def Let_def ws)
    also have "\<dots> = drop (Suc (length vs - nat n)) (vs @ [v])"
      by (rule tl_drop_snoc) (use ge in auto)
    also have "Suc (length vs - nat n) = length (vs @ [v]) - nat n"
      using ge by simp
    finally show ?thesis .
  qed
qed

lemma add_all_short:
  assumes "int (length vs) \<le> n"
  shows "ma_values (add_all vs (MovingAverage_new n init)) = vs"
proof -
  have "0 \<le> n" using assms by simp
  moreover have "length vs - nat n = 0" using assms by simp
  ultimately show ?thesis by (simp add: add_all_values)
qed

lemma add_all_one_over:
  assumes "int (length vs) = n + 1"
  shows "ma_values (add_all vs (MovingAverage_new n init)) = tl vs"
proof (cases "0 \<le> n")
  case True
  then have "length vs - nat n = 1" using assms by simp
  then show ?thesis using True by (simp add: add_all_values drop_Suc)
next
  case False
  then have "length vs = 0" using assms by linarith
  then show ?thesis by (simp add: add_all_def MovingAverage_new_def post_init_def)
qed

lemma get_average_spec_mean: "fst (get_average self) = spec_mean (ma_values self)"
  by (simp add: get_average_def spec_mean_def)

lemma add_value_inv:
  assumes "0 \<le> window_size self" "window_inv self"
  shows "window_inv (add_value v self)"
  using assms by (auto simp: window_inv_def add_value_def Let_def)

lemma add_all_inv:
  assumes "0 \<le> n"
  shows "window_inv (add_all vs (MovingAverage_new n init))"
proof -
  have "window_size (add_all vs (MovingAverage_new n init)) = n"
    by (simp add: add_all_window_size MovingAverage_new_def post_init_def)
  moreover have "int (length (ma_values (add_all vs (MovingAverage_new n init)))) \<le> n"
    using assms by (simp add: add_all_values [OF assms])
  ultimately show ?thesis by (simp add: window_inv_def)
qed

lemma add_all_ready_iff:
  assumes "0 \<le> n"
  shows "fst (is_ready (add_all us (MovingAverage_new n init)))
           \<longleftrightarrow> int (length (ma_values (add_all us (MovingAverage_new n init)))) = n"
proof -
  have w: "window_size (add_all us (MovingAverage_new n init)) = n"
    by (simp add: add_all_window_size MovingAverage_new_def post_init_def)
  have "int (length (ma_values (add_all us (MovingAverage_new n init)))) \<le> n"
    using add_all_inv [OF assms, of us init] w by (simp add: window_inv_def)
  with w show ?thesis by (auto simp: is_ready_def)
qed


subsection \<open>Claim C4\<close>

text \<open>
  C4. For a tracker built with window size \<open>n\<close>: after adding \<open>v1..vm\<close> with
  \<open>m \<le> n\<close> the average is the mean of \<open>v1..vm\<close>, and it is reported (not
  \<open>None\<close>) as soon as one value is held, before the window is full; after adding
  \<open>n + 1\<close> values the oldest one is gone, the average is the mean of the remaining
  \<open>n\<close> and \<open>is_ready\<close> holds; \<open>get_average\<close> is \<open>None\<close> exactly on an empty list,
  and \<open>is_ready\<close> holds exactly when the held count has reached the window size.
\<close>

theorem moving_average_window_mean:
  "(int (length vs) \<le> n \<longrightarrow>
      ma_values (add_all vs (MovingAverage_new n init)) = vs \<and>
      fst (get_average (add_all vs (MovingAverage_new n init))) = spec_mean vs \<and>
      (vs \<noteq> [] \<longrightarrow> fst (get_average (add_all vs (MovingAverage_new n init))) \<noteq> None))
   \<and> (int (length ws) = n + 1 \<longrightarrow>
      ma_values (add_all ws (MovingAverage_new n init)) = tl ws \<and>
      fst (get_average (add_all ws (MovingAverage_new n init))) = spec_mean (tl ws) \<and>
      fst (is_ready (add_all ws (MovingAverage_new n init))))
   \<and> (fst (get_average self) = None \<longleftrightarrow> ma_values self = [])
   \<and> (fst (is_ready self) \<longleftrightarrow> int (length (ma_values self)) \<ge> window_size self)
   \<and> (0 \<le> n \<longrightarrow>
      (fst (is_ready (add_all us (MovingAverage_new n init)))
         \<longleftrightarrow> int (length (ma_values (add_all us (MovingAverage_new n init)))) = n))"
proof -
  have short: "int (length vs) \<le> n \<Longrightarrow>
      ma_values (add_all vs (MovingAverage_new n init)) = vs \<and>
      fst (get_average (add_all vs (MovingAverage_new n init))) = spec_mean vs \<and>
      (vs \<noteq> [] \<longrightarrow> fst (get_average (add_all vs (MovingAverage_new n init))) \<noteq> None)"
    by (simp add: add_all_short get_average_spec_mean spec_mean_def)
  have over: "int (length ws) = n + 1 \<Longrightarrow>
      ma_values (add_all ws (MovingAverage_new n init)) = tl ws \<and>
      fst (get_average (add_all ws (MovingAverage_new n init))) = spec_mean (tl ws) \<and>
      fst (is_ready (add_all ws (MovingAverage_new n init)))"
  proof -
    assume len: "int (length ws) = n + 1"
    have v: "ma_values (add_all ws (MovingAverage_new n init)) = tl ws"
      by (rule add_all_one_over [OF len])
    have w: "window_size (add_all ws (MovingAverage_new n init)) = n"
      by (simp add: add_all_window_size MovingAverage_new_def post_init_def)
    have "int (length (tl ws)) \<ge> n" using len by simp
    then show ?thesis using v w by (simp add: get_average_spec_mean is_ready_def)
  qed
  have none: "fst (get_average self) = None \<longleftrightarrow> ma_values self = []"
    by (simp add: get_average_def)
  have ready: "fst (is_ready self) \<longleftrightarrow> int (length (ma_values self)) \<ge> window_size self"
    by (simp add: is_ready_def)
  show ?thesis using short over none ready add_all_ready_iff [of n us init] by blast
qed

theorem moving_average_window_mean_witness:
  "int (length [10, 20 :: real]) \<le> 3
   \<and> fst (get_average (add_all [10, 20] (MovingAverage_new 3 [7]))) = Some 15
   \<and> int (length [1, 2, 3, 6 :: real]) = 3 + 1
   \<and> ma_values (add_all [1, 2, 3, 6] (MovingAverage_new 3 [7])) = [2, 3, 6]
   \<and> fst (get_average (add_all [1, 2, 3, 6] (MovingAverage_new 3 [7]))) = Some (11 / 3)
   \<and> fst (is_ready (add_all [1, 2, 3, 6] (MovingAverage_new 3 [7])))
   \<and> fst (get_average (MovingAverage_new 3 [7])) = None"
  using moving_average_window_mean
    [of "[10, 20]" 3 "[7]" "[1, 2, 3, 6]" "MovingAverage_new 3 [7]" "[1, 2, 3, 6, 8]"]
  by (simp add: spec_mean_def MovingAverage_new_def post_init_def)


subsection \<open>Claim C8\<close>

text \<open>
  C8. For a window size \<open>n \<ge> 0\<close> the bound \<open>len(values) \<le> n\<close> holds right after
  construction, is kept by every \<open>add_value\<close> (which leaves the window size alone),
  and so holds after any sequence of additions; \<open>get_average\<close> and \<open>is_ready\<close>
  return the object unchanged.
\<close>

theorem moving_average_length_invariant:
  "0 \<le> n \<Longrightarrow>
     window_inv (MovingAverage_new n init)
     \<and> (window_size self = n \<and> window_inv self \<longrightarrow>
          window_inv (add_value v self) \<and> window_size (add_value v self) = n)
     \<and> window_inv (add_all vs (MovingAverage_new n init))
     \<and> snd (get_average self) = self
     \<and> snd (is_ready self) = self"
proof -
  assume n: "0 \<le> n"
  have a: "window_inv (MovingAverage_new n init)"
    using n by (simp add: window_inv_def MovingAverage_new_def post_init_def)
  have b: "window_size self = n \<and> window_inv self \<longrightarrow>
          window_inv (add_value v self) \<and> window_size (add_value v self) = n"
    using n add_value_inv [of self v] by (auto simp: add_value_def Let_def)
  have c: "snd (get_average self) = self" "snd (is_ready self) = self"
    by (simp_all add: get_average_def is_ready_def)
  show ?thesis using a b c add_all_inv [OF n, of vs init] by blast
qed

theorem moving_average_length_invariant_witness:
  "(0::int) \<le> 2
   \<and> window_inv (MovingAverage_new 2 [5, 6, 7])
   \<and> window_inv (add_value 9 (add_all [1, 2] (MovingAverage_new 2 [])))
   \<and> window_inv (add_all [1, 2, 3, 4] (MovingAverage_new 2 [5, 6, 7]))
   \<and> int (length (ma_values (add_all [1, 2, 3, 4] (MovingAverage_new 2 [5, 6, 7])))) \<le> 2"
proof -
  have w: "window_size (add_all [1, 2] (MovingAverage_new 2 [])) = 2"
    by (simp add: add_all_window_size MovingAverage_new_def post_init_def)
  have i: "window_inv (add_all [1, 2] (MovingAverage_new 2 []))"
    by (rule add_all_inv) simp
  have "int (length (ma_values (add_all [1, 2, 3, 4] (MovingAverage_new 2 [5, 6, 7])))) \<le> 2"
    by (simp add: add_all_values)
  then show ?thesis
    using w i moving_average_length_invariant
      [of 2 "[5, 6, 7]" "add_all [1, 2] (MovingAverage_new 2 [])" 9 "[1, 2, 3, 4]"]
    by simp
qed


subsection \<open>Claim C10\<close>

text \<open>
  C10. Whatever list is passed as \<open>values\<close>, the constructor discards it: the new
  tracker holds no values, \<open>get_average\<close> gives \<open>None\<close>, and for a positive window
  size \<open>is_ready\<close> is false.
\<close>

theorem constructor_discards_values:
  "ma_values (MovingAverage_new w vs) = []
   \<and> window_size (MovingAverage_new w vs) = w
   \<and> fst (get_average (MovingAverage_new w vs)) = None
   \<and> (0 < w \<longrightarrow> \<not> fst (is_ready (MovingAverage_new w vs)))"
  by (simp add: MovingAverage_new_def post_init_def get_average_def is_ready_def)

theorem constructor_discards_values_witness:
  "(0::int) < 10
   \<and> ma_values (MovingAverage_new 10 [1, 2, 3]) = []
   \<and> fst (get_average (MovingAverage_new 10 [1, 2, 3])) = None
   \<and> \<not> fst (is_ready (MovingAverage_new 10 [1, 2, 3]))"
  using constructor_discards_values [of 10 "[1, 2, 3]"] by simp


section \<open>Properties of the HTTP client\<close>

lemma sleeps_append: "sleeps (xs @ ys) = sleeps xs @ sleeps ys"
  by (induction xs rule: sleeps.induct) auto

lemma attempt_body_retry:
  assumes "is_server_error r" "int a < mr - 1"
  shows "attempt_body mr r a = (Continue, [HttpGet a, Sleep (2 ^ a)])"
  using assms by (cases r) (simp_all add: attempt_body_def try_block_def)

lemma attempt_body_last:
  assumes "is_server_error r" "\<not> int a < mr - 1"
  shows "attempt_body mr r a = (Raise (ServerErrorAfter mr (status_of r)), [HttpGet a])"
  using assms by (cases r) (simp_all add: attempt_body_def try_block_def)

lemma attempt_loop_server_errors:
  assumes "\<forall>a<n. is_server_error (respond a)" "i < n"
  shows "attempt_loop (int n) respond [i..<n]
           = (Inl (ServerErrorAfter (int n) (status_of (respond (n - 1)))),
              concat (map (retry_step n) [i..<n]))"
  using assms(2)
proof (induction "n - i" arbitrary: i)
  case 0
  then show ?case by simp
next
  case (Suc d)
  then have "i < n" by simp
  have se: "is_server_error (respond i)" using assms(1) \<open>i < n\<close> by simp
  have split: "[i..<n] = i # [Suc i..<n]" using \<open>i < n\<close> by (simp add: upt_conv_Cons)
  show ?case
  proof (cases "Suc i < n")
    case True
    then have "int i < int n - 1" by simp
    then have b: "attempt_body (int n) (respond i) i = (Continue, [HttpGet i, Sleep (2 ^ i)])"
      using se by (rule attempt_body_retry [rotated])
    have d: "d = n - Suc i" using Suc.hyps(2) by simp
    have ih: "attempt_loop (int n) respond [Suc i..<n]
           = (Inl (ServerErrorAfter (int n) (status_of (respond (n - 1)))),
              concat (map (retry_step n) [Suc i..<n]))"
      using Suc.hyps(1) [OF d True] .
    show ?thesis using True by (simp add: split b ih retry_step_def)
  next
    case False
    then have l: "[i..<n] = [i]" and r: "n - 1 = i" using \<open>i < n\<close> by (simp_all add: split)
    have "\<not> int i < int n - 1" using False by simp
    then have b: "attempt_body (int n) (respond i) i
         = (Raise (ServerErrorAfter (int n) (status_of (respond i))), [HttpGet i])"
      using se by (rule attempt_body_last [rotated])
    show ?thesis unfolding l r using False by (simp add: b retry_step_def)
  qed
qed

lemma retry_trace_requests:
  "filter is_HttpGet (concat (map (retry_step k) [i..<k])) = map HttpGet [i..<k]"
proof (induction "k - i" arbitrary: i)
  case 0
  then show ?case by simp
next
  case (Suc d)
  then have "i < k" by simp
  then have split: "[i..<k] = i # [Suc i..<k]" by (simp add: upt_conv_Cons)
  have "d = k - Suc i" using Suc.hyps(2) by simp
  from Suc.hyps(1) [OF this] show ?case by (simp add: split retry_step_def)
qed

lemma retry_trace_sleeps:
  "sleeps (concat (map (retry_step k) [i..<k])) = map (\<lambda>a. 2 ^ a) [i..<k - 1]"
proof (induction "k - i" arbitrary: i)
  case 0
  then show ?case by simp
next
  case (Suc d)
  then have "i < k" by simp
  then have split: "[i..<k] = i # [Suc i..<k]" by (simp add: upt_conv_Cons)
  have "d = k - Suc i" using Suc.hyps(2) by simp
  from Suc.hyps(1) [OF this] have ih:
    "sleeps (concat (map (retry_step k) [Suc i..<k])) = map (\<lambda>a. 2 ^ a) [Suc i..<k - 1]" .
  show ?case
  proof (cases "Suc i < k")
    case True
    then have "[i..<k - 1] = i # [Suc i..<k - 1]" by (simp add: upt_conv_Cons)
    then show ?thesis using True by (simp add: split retry_step_def ih)
  next
    case False
    then show ?thesis using \<open>i < k\<close> by (simp add: split retry_step_def ih)
  qed
qed


lemma attempt_loop_no_attempts: "attempt_loop mr respond [] = (Inl MaxRetriesExceeded, [])"
  by simp

lemma rate_limit_no_HttpGet: "filter is_HttpGet (snd (rate_limit self t1 t2)) = []"
  by (simp add: rate_limit_def Let_def split: option.splits)

lemma get_unfold:
  "get self t1 t2 respond =
     (fst (attempt_loop (max_retries self) respond [0..<nat (max_retries self)]),
      fst (rate_limit self t1 t2),
      snd (rate_limit self t1 t2)
        @ snd (attempt_loop (max_retries self) respond [0..<nat (max_retries self)]))"
  by (simp add: get_def rate_limit_def Let_def split: prod.splits)

lemma get_server_errors:
  assumes "max_retries self = k" "\<forall>a<nat k. is_server_error (respond a)"
  shows "snd (snd (get self t1 t2 respond)) = snd (rate_limit self t1 t2) @ retry_trace (nat k)"
    and "1 \<le> k \<Longrightarrow> fst (get self t1 t2 respond)
           = Inl (ServerErrorAfter k (status_of (respond (nat k - 1))))"
    and "k \<le> 0 \<Longrightarrow> fst (get self t1 t2 respond) = Inl MaxRetriesExceeded"
proof -
  have pos: "attempt_loop k respond [0..<nat k]
      = (Inl (ServerErrorAfter k (status_of (respond (nat k - 1)))), retry_trace (nat k))"
    if "1 \<le> k"
  proof -
    have "0 < nat k" and "int (nat k) = k" using that by simp_all
    with attempt_loop_server_errors [of "nat k" respond 0] assms(2)
    show ?thesis by (simp add: retry_trace_def)
  qed
  have neg: "attempt_loop k respond [0..<nat k] = (Inl MaxRetriesExceeded, retry_trace (nat k))"
    if "k \<le> 0"
    using that by (simp add: retry_trace_def)
  show "snd (snd (get self t1 t2 respond)) = snd (rate_limit self t1 t2) @ retry_trace (nat k)"
    using pos neg assms(1) by (cases "1 \<le> k") (simp_all add: get_unfold)
  show "1 \<le> k \<Longrightarrow> fst (get self t1 t2 respond)
           = Inl (ServerErrorAfter k (status_of (respond (nat k - 1))))"
    using pos assms(1) by (simp add: get_unfold)
  show "k \<le> 0 \<Longrightarrow> fst (get self t1 t2 respond) = Inl MaxRetriesExceeded"
    using neg assms(1) by (simp add: get_unfold)
qed

subsection \<open>Claim C1\<close>

text \<open>
  C1. With \<open>max_retries = k\<close> and every attempt answered with a status of 500 or more,
  \<open>get\<close> issues exactly the attempts \<open>0, \<dots>, k - 1\<close>, sleeps \<open>1, 2, 4, \<dots>, 2^(k-2)\<close>
  between consecutive attempts (after the rate limiter's own wait, if any), and then
  fails with the "server error after \<open>k\<close> attempts" error carrying the status of the
  last attempt. With \<open>k \<le> 0\<close> the loop body never runs: no attempt is issued and the
  call fails with "max retries exceeded".
\<close>

theorem get_exhausts_retries_on_server_errors:
  assumes "max_retries self = k" and "\<forall>a<nat k. is_server_error (respond a)"
  shows "snd (snd (get self t1 t2 respond)) = snd (rate_limit self t1 t2) @ retry_trace (nat k)
     \<and> filter is_HttpGet (snd (snd (get self t1 t2 respond))) = map HttpGet [0..<nat k]
     \<and> sleeps (snd (snd (get self t1 t2 respond)))
         = sleeps (snd (rate_limit self t1 t2)) @ map (\<lambda>a. 2 ^ a) [0..<nat k - 1]
     \<and> (1 \<le> k \<longrightarrow> fst (get self t1 t2 respond)
           = Inl (ServerErrorAfter k (status_of (respond (nat k - 1)))))
     \<and> (k \<le> 0 \<longrightarrow> fst (get self t1 t2 respond) = Inl MaxRetriesExceeded
           \<and> filter is_HttpGet (snd (snd (get self t1 t2 respond))) = [])"
proof -
  note g = get_server_errors [OF assms, of t1 t2]
  have a: "filter is_HttpGet (snd (snd (get self t1 t2 respond))) = map HttpGet [0..<nat k]"
    by (simp add: g(1) rate_limit_no_HttpGet retry_trace_def retry_trace_requests)
  have b: "sleeps (snd (snd (get self t1 t2 respond)))
         = sleeps (snd (rate_limit self t1 t2)) @ map (\<lambda>a. 2 ^ a) [0..<nat k - 1]"
    by (simp add: g(1) sleeps_append retry_trace_def retry_trace_sleeps)
  have c: "k \<le> 0 \<Longrightarrow> filter is_HttpGet (snd (snd (get self t1 t2 respond))) = []"
    using a by simp
  show ?thesis using g a b c by simp
qed

theorem get_exhausts_retries_on_server_errors_witness:
  "fst (get (HttpClient_new 30 3 2) 0 0 always_503) = Inl (ServerErrorAfter 3 503)
   \<and> filter is_HttpGet (snd (snd (get (HttpClient_new 30 3 2) 0 0 always_503)))
       = [HttpGet 0, HttpGet 1, HttpGet 2]
   \<and> sleeps (snd (snd (get (HttpClient_new 30 3 2) 0 0 always_503))) = [1, 2]
   \<and> fst (get (HttpClient_new 30 0 2) 0 0 always_503) = Inl MaxRetriesExceeded
   \<and> filter is_HttpGet (snd (snd (get (HttpClient_new 30 0 2) 0 0 always_503))) = []"
proof -
  have m3: "max_retries (HttpClient_new 30 3 2) = 3" and m0: "max_retries (HttpClient_new 30 0 2) = 0"
    by (simp_all add: HttpClient_new_def)
  have h3: "\<forall>a<nat 3. is_server_error (always_503 a)" and h0: "\<forall>a<nat 0. is_server_error (always_503 a)"
    by (simp_all add: always_503_def)
  have w: "snd (rate_limit (HttpClient_new 30 3 2) 0 0) = []"
    by (simp add: rate_limit_def HttpClient_new_def)
  have u: "[0..<3] = [0, 1, 2::nat]" "[0..<2] = [0, 1::nat]"
    by (simp_all add: upt_rec)
  have s: "status_of (always_503 2) = 503"
    by (simp add: always_503_def)
  show ?thesis
    using get_exhausts_retries_on_server_errors [OF m3 h3, of 0 0, THEN conjunct2]
      get_exhausts_retries_on_server_errors [OF m0 h0, of 0 0, THEN conjunct2]
    by (simp add: w u s)
qed







subsection \<open>Claim C6\<close>




lemma attempt_body_client_error:
  assumes "400 \<le> status" "status < 500"
  shows "attempt_body mr (Responded status body) a
           = (Raise (ClientResponseError status), [HttpGet a])"
  using assms by (simp add: attempt_body_def try_block_def)

subsection \<open>Claim C5\<close>

text \<open>
  C5. When an attempt is answered with a status in \<open>[400, 500)\<close>, the iteration raises
  the client-error exception with that status after the one request and without any
  sleep, and the loop ends there whatever attempts remain; as the first attempt of a
  \<open>get\<close> with a positive retry budget, the call performs exactly one request and no
  backoff sleep.
\<close>

theorem client_error_fails_without_retry:
  assumes "respond a = Responded status body" and "400 \<le> status" and "status < 500"
  shows "attempt_body mr (respond a) a = (Raise (ClientResponseError status), [HttpGet a])
     \<and> attempt_loop mr respond (a # rest) = (Inl (ClientResponseError status), [HttpGet a])
     \<and> (a = 0 \<and> 1 \<le> max_retries self \<longrightarrow>
          fst (get self t1 t2 respond) = Inl (ClientResponseError status)
          \<and> snd (snd (get self t1 t2 respond)) = snd (rate_limit self t1 t2) @ [HttpGet 0]
          \<and> sleeps (snd (snd (get self t1 t2 respond))) = sleeps (snd (rate_limit self t1 t2)))"
proof -
  have b: "attempt_body mr' (respond a) a = (Raise (ClientResponseError status), [HttpGet a])"
    for mr'
    using assms by (simp add: attempt_body_client_error)
  have l: "attempt_loop mr' respond (a # rest') = (Inl (ClientResponseError status), [HttpGet a])"
    for mr' rest'
    by (simp add: b)
  have g: "fst (get self t1 t2 respond) = Inl (ClientResponseError status)
          \<and> snd (snd (get self t1 t2 respond)) = snd (rate_limit self t1 t2) @ [HttpGet 0]
          \<and> sleeps (snd (snd (get self t1 t2 respond))) = sleeps (snd (rate_limit self t1 t2))"
    if "a = 0" "1 \<le> max_retries self"
  proof -
    have "0 < nat (max_retries self)" using that(2) by simp
    then have "[0..<nat (max_retries self)] = a # [Suc 0..<nat (max_retries self)]"
      using that(1) by (simp add: upt_conv_Cons)
    then have "attempt_loop (max_retries self) respond [0..<nat (max_retries self)]
        = (Inl (ClientResponseError status), [HttpGet 0])"
      using l that(1) by simp
    then show ?thesis by (simp add: get_unfold sleeps_append)
  qed
  show ?thesis using b l g by blast
qed

theorem client_error_fails_without_retry_witness:
  "fst (get (HttpClient_new 30 5 2) 0 0 not_found) = Inl (ClientResponseError 404)
   \<and> snd (snd (get (HttpClient_new 30 5 2) 0 0 not_found)) = [HttpGet 0]
   \<and> sleeps (snd (snd (get (HttpClient_new 30 5 2) 0 0 not_found))) = []"
proof -
  have r: "not_found 0 = Responded 404 (Inr ())"
    by (simp add: not_found_def)
  have m: "max_retries (HttpClient_new 30 5 2) = 5"
    by (simp add: HttpClient_new_def)
  have w: "snd (rate_limit (HttpClient_new 30 5 2) 0 0) = []"
    by (simp add: rate_limit_def HttpClient_new_def)
  show ?thesis
    using client_error_fails_without_retry
      [of not_found 0 404 "Inr ()" 5 "[]" "HttpClient_new 30 5 2" 0 0]
    by (simp add: r m w)
qed


section \<open>Properties of the paged crawls\<close>

lemma crawl_loop_closed:
  "crawl_loop delay fetch pages acc
     = (acc @ concat (map (page_records fetch) pages),
        concat (map (page_events delay fetch) pages))"
proof (induction pages arbitrary: acc)
  case Nil
  show ?case by simp
next
  case (Cons page pages)
  show ?case
  proof (cases "fetch page")
    case (Inl e)
    then show ?thesis by (simp add: Cons.IH page_records_def page_events_def)
  next
    case (Inr listings)
    then show ?thesis by (simp add: Cons.IH page_records_def page_events_def)
  qed
qed

lemma crawl_run_closed:
  "crawl_run delay fetch store pages
     = ((case store (successful_batch fetch pages) of
           Some e \<Rightarrow> Inl e
         | None \<Rightarrow> Inr (successful_batch fetch pages)),
        concat (map (page_events delay fetch) [1..pages])
          @ [StoreListings (successful_batch fetch pages)])"
  by (simp add: crawl_run_def crawl_loop_closed successful_batch_def split: option.splits)

lemma page_events_fetches:
  "filter is_FetchPage (concat (map (page_events delay fetch) pages)) = map FetchPage pages"
  by (induction pages) (simp_all add: page_events_def split: sum.splits)

lemma page_events_stores:
  "filter is_StoreListings (concat (map (page_events delay fetch) pages)) = []"
  by (induction pages) (simp_all add: page_events_def split: sum.splits)

lemma page_events_errors:
  "filter is_LogError (concat (map (page_events delay fetch) pages))
     = concat (map (page_errors fetch) pages)"
  by (induction pages) (simp_all add: page_events_def page_errors_def split: sum.splits)

lemma page_events_sleeps:
  "sleeps (concat (map (page_events delay fetch) pages))
     = replicate (length (filter (\<lambda>p. \<not> isl (fetch p)) pages)) delay"
  by (induction pages) (simp_all add: page_events_def sleeps_append split: sum.splits)

lemma all_failed_no_records:
  "list_all (\<lambda>p. isl (fetch p)) pages \<Longrightarrow> concat (map (page_records fetch) pages) = []"
  by (induction pages) (auto simp: page_records_def split: sum.splits)

lemma crawl_run_facts:
  "fst (crawl_run delay fetch store pages)
     = (case store (successful_batch fetch pages) of
          Some e \<Rightarrow> Inl e
        | None \<Rightarrow> Inr (successful_batch fetch pages))"
  "filter is_StoreListings (snd (crawl_run delay fetch store pages))
     = [StoreListings (successful_batch fetch pages)]"
  "filter is_FetchPage (snd (crawl_run delay fetch store pages)) = map FetchPage [1..pages]"
  "filter is_LogError (snd (crawl_run delay fetch store pages))
     = concat (map (page_errors fetch) [1..pages])"
  by (simp_all add: crawl_run_closed page_events_fetches page_events_stores page_events_errors)

lemma after_last_fetch_run:
  "after_last_fetch (snd (crawl_run delay fetch store pages))
     = (if 1 \<le> pages
        then tl (page_events delay fetch pages) @ [StoreListings (successful_batch fetch pages)]
        else [StoreListings (successful_batch fetch pages)])"
proof (cases "1 \<le> pages")
  case True
  then have "[1..pages] = [1..pages - 1] @ [pages]" by (rule upto_rec2)
  then have "concat (map (page_events delay fetch) [1..pages])
      = concat (map (page_events delay fetch) [1..pages - 1]) @ page_events delay fetch pages"
    by simp
  then show ?thesis using True
    by (cases "fetch pages")
      (simp_all add: crawl_run_closed after_last_fetch_def page_events_def)
next
  case False
  then show ?thesis by (simp add: crawl_run_closed after_last_fetch_def)
qed

lemma delay_after_last_page_run:
  "delay_after_last_page (snd (crawl_run delay fetch store pages))
     \<longleftrightarrow> 1 \<le> pages \<and> \<not> isl (fetch pages)"
  by (cases "fetch pages")
    (simp_all add: delay_after_last_page_def after_last_fetch_run sleeps_append page_events_def)


subsection \<open>Claim C3\<close>

text \<open>
  C3. In both crawls every page of \<open>1..pages\<close> is fetched once and in order, whatever
  pages failed; each failed page is logged with its exception; \<open>store_listings\<close> is
  called exactly once, with the records of exactly the successful pages in page order
  (the empty list when every page failed); that list is what the crawl returns, unless
  \<open>store_listings\<close> itself raises, in which case its exception reaches the caller.
\<close>

theorem paged_crawl_continues_and_stores_once:
  "fst (crawl_coinmarketcap_html self get_listings_html store pages)
     = (case store (successful_batch get_listings_html pages) of
          Some e \<Rightarrow> Inl e
        | None \<Rightarrow> Inr (successful_batch get_listings_html pages))
   \<and> filter is_StoreListings (snd (crawl_coinmarketcap_html self get_listings_html store pages))
       = [StoreListings (successful_batch get_listings_html pages)]
   \<and> filter is_FetchPage (snd (crawl_coinmarketcap_html self get_listings_html store pages))
       = map FetchPage [1..pages]
   \<and> filter is_LogError (snd (crawl_coinmarketcap_html self get_listings_html store pages))
       = concat (map (page_errors get_listings_html) [1..pages])
   \<and> (list_all (\<lambda>p. isl (get_listings_html p)) [1..pages]
        \<longrightarrow> successful_batch get_listings_html pages = [])
   \<and> fst (crawl_coinmarketcap_json self get_listings store pages per_page)
       = (case store (successful_batch (\<lambda>p. get_listings p per_page) pages) of
            Some e \<Rightarrow> Inl e
          | None \<Rightarrow> Inr (successful_batch (\<lambda>p. get_listings p per_page) pages))
   \<and> filter is_StoreListings (snd (crawl_coinmarketcap_json self get_listings store pages per_page))
       = [StoreListings (successful_batch (\<lambda>p. get_listings p per_page) pages)]
   \<and> filter is_FetchPage (snd (crawl_coinmarketcap_json self get_listings store pages per_page))
       = map FetchPage [1..pages]
   \<and> filter is_LogError (snd (crawl_coinmarketcap_json self get_listings store pages per_page))
       = concat (map (page_errors (\<lambda>p. get_listings p per_page)) [1..pages])
   \<and> (list_all (\<lambda>p. isl (get_listings p per_page)) [1..pages]
        \<longrightarrow> successful_batch (\<lambda>p. get_listings p per_page) pages = [])"
proof -
  have e: "list_all (\<lambda>p. isl (f p)) [1..pages] \<longrightarrow> successful_batch f pages = []" for f
    by (simp add: successful_batch_def all_failed_no_records)
  show ?thesis
    unfolding crawl_coinmarketcap_html_def crawl_coinmarketcap_json_def
    using e [of get_listings_html] e [of "\<lambda>p. get_listings p per_page"]
    by (simp add: crawl_run_facts)
qed

lemma upto_1_5: "[1..5] = [1, 2, 3, 4, 5::int]"
  by (simp add: upto_rec1)

lemma upto_1_2: "[1..2] = [1, 2::int]"
  by (simp add: upto_rec1)

theorem paged_crawl_continues_and_stores_once_witness:
  "fst (crawl_coinmarketcap_html (CryptoCrawlerService_new default_config) page3_fails store_ok 5)
     = Inr [coin 1, coin 2, coin 4, coin 5]
   \<and> filter is_StoreListings
        (snd (crawl_coinmarketcap_json (CryptoCrawlerService_new default_config)
                page3_fails_json store_ok 5 20))
       = [StoreListings [coin 1, coin 2, coin 4, coin 5]]
   \<and> filter is_LogError
        (snd (crawl_coinmarketcap_html (CryptoCrawlerService_new default_config)
                page3_fails store_ok 5))
       = [LogError 3 TimeoutError]
   \<and> list_all (\<lambda>p. isl (every_page_fails p)) [1..5]
   \<and> filter is_StoreListings
        (snd (crawl_coinmarketcap_html (CryptoCrawlerService_new default_config)
                every_page_fails store_ok 5))
       = [StoreListings []]"
proof -
  have b: "successful_batch page3_fails 5 = [coin 1, coin 2, coin 4, coin 5]"
    "successful_batch (\<lambda>p. page3_fails_json p 20) 5 = [coin 1, coin 2, coin 4, coin 5]"
    by (simp_all add: successful_batch_def upto_1_5 page_records_def page3_fails_def
        page3_fails_json_def)
  have l: "concat (map (page_errors page3_fails) [1..5]) = [LogError 3 TimeoutError]"
    by (simp add: upto_1_5 page_errors_def page3_fails_def)
  have f: "list_all (\<lambda>p. isl (every_page_fails p)) [1..5]"
    by (simp add: upto_1_5 every_page_fails_def)
  show ?thesis
    using f
      paged_crawl_continues_and_stores_once
        [of "CryptoCrawlerService_new default_config" page3_fails store_ok 5 page3_fails_json 20]
      paged_crawl_continues_and_stores_once
        [of "CryptoCrawlerService_new default_config" every_page_fails store_ok 5
            every_page_fails_json 20]
    by (simp add: b l store_ok_def)
qed

subsection \<open>Claim C9\<close>

text \<open>
  C9 as stated fails: the delay is slept inside the \<open>try\<close> block after every page that
  was fetched, the last page included. With two pages that both succeed, a sleep
  follows the second (last) page, in the JSON mode and in the HTML mode.
\<close>

theorem delay_follows_last_page_counterexample:
  "snd (crawl_coinmarketcap_json (CryptoCrawlerService_new default_config)
          page3_fails_json store_ok 2 20)
     = [FetchPage 1, Sleep (1 / 5), FetchPage 2, Sleep (1 / 5), StoreListings [coin 1, coin 2]]
   \<and> delay_after_last_page
        (snd (crawl_coinmarketcap_json (CryptoCrawlerService_new default_config)
                page3_fails_json store_ok 2 20))
   \<and> snd (crawl_coinmarketcap_html (CryptoCrawlerService_new default_config)
            page3_fails store_ok 2)
     = [FetchPage 1, Sleep (1 / 2), FetchPage 2, Sleep (1 / 2), StoreListings [coin 1, coin 2]]
   \<and> delay_after_last_page
        (snd (crawl_coinmarketcap_html (CryptoCrawlerService_new default_config)
                page3_fails store_ok 2))"
  by (simp add: crawl_coinmarketcap_json_def crawl_coinmarketcap_html_def crawl_run_def
      upto_1_2 page3_fails_json_def page3_fails_def store_ok_def
      CryptoCrawlerService_new_def default_config_def
      delay_after_last_page_def after_last_fetch_def)

text \<open>
  C9, amended. In every paged crawl the delay (\<open>html_scraping_delay\<close> in the HTML mode,
  \<open>json_api_delay\<close> in the JSON mode) is slept once right after each page whose fetch
  succeeded and not after a page whose fetch failed; the number of delays is the number
  of successful pages, and a delay follows the last page exactly when that page was
  fetched successfully.
\<close>

theorem delay_follows_each_fetched_page:
  "snd (crawl_coinmarketcap_html self get_listings_html store pages)
     = concat (map (page_events (html_scraping_delay (config self)) get_listings_html) [1..pages])
         @ [StoreListings (successful_batch get_listings_html pages)]
   \<and> sleeps (snd (crawl_coinmarketcap_html self get_listings_html store pages))
       = replicate (length (filter (\<lambda>p. \<not> isl (get_listings_html p)) [1..pages]))
           (html_scraping_delay (config self))
   \<and> (delay_after_last_page (snd (crawl_coinmarketcap_html self get_listings_html store pages))
        \<longleftrightarrow> 1 \<le> pages \<and> \<not> isl (get_listings_html pages))
   \<and> snd (crawl_coinmarketcap_json self get_listings store pages per_page)
       = concat (map (page_events (json_api_delay (config self))
                        (\<lambda>p. get_listings p per_page)) [1..pages])
           @ [StoreListings (successful_batch (\<lambda>p. get_listings p per_page) pages)]
   \<and> sleeps (snd (crawl_coinmarketcap_json self get_listings store pages per_page))
       = replicate (length (filter (\<lambda>p. \<not> isl (get_listings p per_page)) [1..pages]))
           (json_api_delay (config self))
   \<and> (delay_after_last_page (snd (crawl_coinmarketcap_json self get_listings store pages per_page))
        \<longleftrightarrow> 1 \<le> pages \<and> \<not> isl (get_listings pages per_page))"
proof -
  have s: "sleeps (snd (crawl_run d f store pages))
      = replicate (length (filter (\<lambda>p. \<not> isl (f p)) [1..pages])) d" for d f
    by (simp add: crawl_run_closed sleeps_append page_events_sleeps)
  have t: "snd (crawl_run d f store pages)
      = concat (map (page_events d f) [1..pages]) @ [StoreListings (successful_batch f pages)]"
    for d f
    by (simp add: crawl_run_closed)
  show ?thesis
    unfolding crawl_coinmarketcap_html_def crawl_coinmarketcap_json_def
    by (simp add: s t [symmetric] delay_after_last_page_run)
qed

theorem delay_follows_each_fetched_page_witness:
  "sleeps (snd (crawl_coinmarketcap_html (CryptoCrawlerService_new default_config)
                  page3_fails store_ok 5))
     = [1 / 2, 1 / 2, 1 / 2, 1 / 2]
   \<and> delay_after_last_page
        (snd (crawl_coinmarketcap_html (CryptoCrawlerService_new default_config)
                page3_fails store_ok 5))
   \<and> \<not> delay_after_last_page
        (snd (crawl_coinmarketcap_json (CryptoCrawlerService_new default_config)
                every_page_fails_json store_ok 5 20))"
proof -
  have c: "html_scraping_delay (config (CryptoCrawlerService_new default_config)) = 1 / 2"
    by (simp add: CryptoCrawlerService_new_def default_config_def)
  have n: "length (filter (\<lambda>p. \<not> isl (page3_fails p)) [1..5]) = 4"
    by (simp add: upto_1_5 page3_fails_def)
  have r: "replicate 4 (1 / 2 :: real) = [1 / 2, 1 / 2, 1 / 2, 1 / 2]"
    by (simp add: numeral_eq_Suc)
  have p: "\<not> isl (page3_fails 5)" "isl (every_page_fails_json 5 20)"
    by (simp_all add: page3_fails_def every_page_fails_json_def every_page_fails_def)
  note t = delay_follows_each_fetched_page
      [of "CryptoCrawlerService_new default_config" page3_fails store_ok 5
          every_page_fails_json 20]
  note rest = t [THEN conjunct2, THEN conjunct2]
  show ?thesis
    using t [THEN conjunct2, THEN conjunct1] rest [THEN conjunct1]
      rest [THEN conjunct2, THEN conjunct2, THEN conjunct2]
    by (simp add: c n r p)
qed


section \<open>Properties of the price poller\<close>

lemma poll_try_frame:
  "config (fst (snd (poll_try self c))) = config self"
  "running (fst (snd (poll_try self c))) = running self"
  "window_size (moving_average (fst (snd (poll_try self c)))) = window_size (moving_average self)"
  by (auto simp: poll_try_def add_value_def is_ready_def get_average_def Let_def
      split: sum.splits option.splits)

lemma poll_try_failed_counter:
  "fst (poll_try self c) \<noteq> None
     \<Longrightarrow> consecutive_failures (fst (snd (poll_try self c))) = consecutive_failures self"
  by (auto simp: poll_try_def add_value_def is_ready_def get_average_def Let_def
      split: sum.splits option.splits if_splits)



lemma poll_try_failed_sleeps:
  "fst (poll_try self c) \<noteq> None \<Longrightarrow> sleeps (snd (snd (poll_try self c))) = []"
  by (auto simp: poll_try_def add_value_def is_ready_def get_average_def Let_def
      split: sum.splits option.splits if_splits)

lemma poll_try_not_ok: "\<not> cycle_ok c \<Longrightarrow> fst (poll_try self c) \<noteq> None"
  by (auto simp: poll_try_def cycle_ok_def split: sum.splits option.splits)

lemma add_value_nonempty:
  "1 \<le> window_size m \<Longrightarrow> ma_values (add_value v m) \<noteq> []"
  by (cases "ma_values m") (auto simp: add_value_def Let_def)

lemma poll_try_ok:
  assumes "1 \<le> window_size (moving_average self)" "cycle_ok c"
  shows "fst (poll_try self c) = None"
proof -
  obtain p where p: "fetched c = Inr p" "stored c = None"
    using assms(2) by (cases "fetched c") (auto simp: cycle_ok_def)
  have "ma_values (add_value p (moving_average self)) \<noteq> []"
    using assms(1) by (rule add_value_nonempty)
  then show ?thesis
    by (simp add: poll_try_def p is_ready_def get_average_def Let_def)
qed



lemma poll_cycle_failed:
  assumes "fst (poll_try self c) \<noteq> None"
  shows "consecutive_failures (fst (poll_cycle self c)) = consecutive_failures self + 1"
    and "running (fst (poll_cycle self c))
           \<longleftrightarrow> running self \<and> int (consecutive_failures self) + 1
                                  < max_consecutive_failures (config self)"
    and "config (fst (poll_cycle self c)) = config self"
    and "window_size (moving_average (fst (poll_cycle self c)))
           = window_size (moving_average self)"
    and "int (consecutive_failures self) + 1 < max_consecutive_failures (config self)
           \<Longrightarrow> snd (poll_cycle self c)
                 = snd (snd (poll_try self c)) @ [Sleep (min (2 ^ consecutive_failures self) 30)]"
    and "max_consecutive_failures (config self) \<le> int (consecutive_failures self) + 1
           \<Longrightarrow> snd (poll_cycle self c) = snd (snd (poll_try self c)) @ [PrintStop]"
proof -
  obtain e self' evs where t: "poll_try self c = (Some e, self', evs)"
    using assms by (cases "poll_try self c") auto
  have f: "config self' = config self" "running self' = running self"
    "window_size (moving_average self') = window_size (moving_average self)"
    "consecutive_failures self' = consecutive_failures self"
    using poll_try_frame [of self c] poll_try_failed_counter [OF assms] by (simp_all add: t)
  show "consecutive_failures (fst (poll_cycle self c)) = consecutive_failures self + 1"
    by (simp add: poll_cycle_def t f Let_def)
  show "running (fst (poll_cycle self c))
           \<longleftrightarrow> running self \<and> int (consecutive_failures self) + 1
                                  < max_consecutive_failures (config self)"
    by (auto simp: poll_cycle_def t f Let_def)
  show "config (fst (poll_cycle self c)) = config self"
    "window_size (moving_average (fst (poll_cycle self c))) = window_size (moving_average self)"
    by (simp_all add: poll_cycle_def t f Let_def)
  show "int (consecutive_failures self) + 1 < max_consecutive_failures (config self)
           \<Longrightarrow> snd (poll_cycle self c)
                 = snd (snd (poll_try self c)) @ [Sleep (min (2 ^ consecutive_failures self) 30)]"
    by (simp add: poll_cycle_def t f Let_def)
  show "max_consecutive_failures (config self) \<le> int (consecutive_failures self) + 1
           \<Longrightarrow> snd (poll_cycle self c) = snd (snd (poll_try self c)) @ [PrintStop]"
    by (simp add: poll_cycle_def t f Let_def)
qed




lemma poll_iteration_events: "snd (poll_iteration self c) = snd (poll_cycle self c)"
  by (simp add: poll_iteration_def split_beta)
















subsection \<open>Claim C2\<close>






lemma attempt_body_transient:
  assumes "is_transient r" "int a < mr - 1"
  shows "attempt_body mr r a = (Continue, [HttpGet a, Sleep (2 ^ a)])"
proof (cases r)
  case (Responded status body)
  show ?thesis
  proof (cases "status \<ge> 500")
    case True
    then show ?thesis using assms(2) by (simp add: Responded attempt_body_def try_block_def)
  next
    case False
    then obtain e where "body = Inl e" "retried_exn e" "status < 400"
      using assms(1) Responded by (cases body) auto
    then show ?thesis using assms(2) False
      by (simp add: Responded attempt_body_def try_block_def)
  qed
next
  case (Raised e)
  then show ?thesis using assms by (simp add: attempt_body_def try_block_def)
qed

lemma thirty_lt_pow: "5 \<le> a \<Longrightarrow> (30::real) < 2 ^ a"
proof -
  assume "5 \<le> a"
  then have "(2::real) ^ 5 \<le> 2 ^ a" by (intro power_increasing) simp_all
  then show ?thesis by simp
qed

subsection \<open>Claim C7\<close>

text \<open>
  C7. In the fetcher, a retried failure at attempt \<open>a\<close> with attempts remaining is
  followed by a sleep of exactly \<open>2 ^ a\<close>, which exceeds 30 from attempt 5 on: no cap.
  In the poller, a failed cycle that does not reach the threshold is followed by a sleep
  of exactly \<open>min (2 ^ (n - 1)) 30\<close>, where \<open>n\<close> is the new count of consecutive
  failures: never more than 30.
\<close>

theorem backoff_policies_distinct:
  "(is_transient r \<and> int a < mr - 1
      \<longrightarrow> attempt_body mr r a = (Continue, [HttpGet a, Sleep (2 ^ a)])
          \<and> sleeps (snd (attempt_body mr r a)) = [2 ^ a])
   \<and> (is_transient r \<and> int a < mr - 1 \<and> 5 \<le> a
      \<longrightarrow> sleeps (snd (attempt_body mr r a)) \<noteq> []
          \<and> list_all (\<lambda>d. 30 < d) (sleeps (snd (attempt_body mr r a))))
   \<and> (fst (poll_try self c) \<noteq> None
        \<and> int (consecutive_failures self) + 1 < max_consecutive_failures (config self)
      \<longrightarrow> running (fst (poll_cycle self c)) = running self
          \<and> consecutive_failures (fst (poll_cycle self c)) = consecutive_failures self + 1
          \<and> snd (poll_cycle self c)
              = snd (snd (poll_try self c))
                  @ [Sleep (min (2 ^ (consecutive_failures (fst (poll_cycle self c)) - 1)) 30)]
          \<and> sleeps (snd (poll_cycle self c))
              = [min (2 ^ (consecutive_failures (fst (poll_cycle self c)) - 1)) 30]
          \<and> list_all (\<lambda>d. d \<le> 30) (sleeps (snd (poll_cycle self c))))"
proof -
  have f: "attempt_body mr r a = (Continue, [HttpGet a, Sleep (2 ^ a)])
          \<and> sleeps (snd (attempt_body mr r a)) = [2 ^ a]"
    if "is_transient r" "int a < mr - 1"
    using attempt_body_transient [OF that] by simp
  have g: "sleeps (snd (attempt_body mr r a)) \<noteq> []
          \<and> list_all (\<lambda>d. 30 < d) (sleeps (snd (attempt_body mr r a)))"
    if "is_transient r" "int a < mr - 1" "5 \<le> a"
    using attempt_body_transient [OF that(1,2)] thirty_lt_pow [OF that(3)] by simp
  have p: "running (fst (poll_cycle self c)) = running self
          \<and> consecutive_failures (fst (poll_cycle self c)) = consecutive_failures self + 1
          \<and> snd (poll_cycle self c)
              = snd (snd (poll_try self c))
                  @ [Sleep (min (2 ^ (consecutive_failures (fst (poll_cycle self c)) - 1)) 30)]
          \<and> sleeps (snd (poll_cycle self c))
              = [min (2 ^ (consecutive_failures (fst (poll_cycle self c)) - 1)) 30]
          \<and> list_all (\<lambda>d. d \<le> 30) (sleeps (snd (poll_cycle self c)))"
    if failed: "fst (poll_try self c) \<noteq> None"
      and below: "int (consecutive_failures self) + 1 < max_consecutive_failures (config self)"
  proof -
    note pf = poll_cycle_failed [OF failed]
    have "sleeps (snd (poll_cycle self c)) = [min (2 ^ consecutive_failures self) 30]"
      by (simp add: pf(5) [OF below] sleeps_append poll_try_failed_sleeps [OF failed])
    then show ?thesis using below by (simp add: pf(1,2) pf(5) [OF below])
  qed
  show ?thesis using f g p by blast
qed

theorem backoff_policies_distinct_witness:
  "attempt_body 7 (always_503 5) 5 = (Continue, [HttpGet 5, Sleep 32])
   \<and> list_all (\<lambda>d. 30 < d) (sleeps (snd (attempt_body 7 (always_503 5) 5)))
   \<and> sleeps (snd (poll_cycle patient_service bad_cycle)) = [30]
   \<and> consecutive_failures (fst (poll_cycle patient_service bad_cycle)) = 6"
proof -
  have r: "is_transient (always_503 5)" by (simp add: always_503_def)
  have ps: "consecutive_failures patient_service = 5"
    "max_consecutive_failures (config patient_service) = 10"
    by (simp_all add: patient_service_def CryptoCrawlerService_new_def default_config_def)
  have "\<not> cycle_ok bad_cycle" by (simp add: cycle_ok_def bad_cycle_def)
  then have failed: "fst (poll_try patient_service bad_cycle) \<noteq> None"
    by (rule poll_try_not_ok)
  have below: "int (consecutive_failures patient_service) + 1
      < max_consecutive_failures (config patient_service)"
    by (simp add: ps)
  have early: "int 5 < (7::int) - 1" and late: "(5::nat) \<le> 5" by simp_all
  note both = backoff_policies_distinct [of "always_503 5" 5 7 patient_service bad_cycle]
  note fetcher = both [THEN conjunct1, THEN mp, OF conjI [OF r early]]
  note uncapped = both [THEN conjunct2, THEN conjunct1, THEN mp,
      OF conjI [OF r conjI [OF early late]]]
  note poller = both [THEN conjunct2, THEN conjunct2, THEN mp, OF conjI [OF failed below]]
  have a: "attempt_body 7 (always_503 5) 5 = (Continue, [HttpGet 5, Sleep 32])"
    using fetcher [THEN conjunct1] by simp
  have n: "consecutive_failures (fst (poll_cycle patient_service bad_cycle)) = 6"
    using poller [THEN conjunct2, THEN conjunct1] by (simp add: ps)
  have s: "sleeps (snd (poll_cycle patient_service bad_cycle)) = [30]"
    using poller [THEN conjunct2, THEN conjunct2, THEN conjunct2, THEN conjunct1]
    by (simp add: n)
  show ?thesis using a uncapped [THEN conjunct2] n s by simp
qed

end
